theory Spec2Isabelle
  imports Main "HOL-Library.Word"
begin

section \<open>Python values used by the two scripts\<close>

text \<open>
  Both scripts read a file in binary mode (\<^verbatim>\<open>content = f.read()\<close>), so \<open>content\<close> is a
  Python \<^verbatim>\<open>bytes\<close> object: a sequence of integers in the range 0..255.  A Python
  \<^verbatim>\<open>str\<close> is a sequence of Unicode code points; the decoder can produce U+FFFD, so a
  code point is a natural number and not an 8-bit character.  Python integers are
  unbounded: \<open>int\<close>.
\<close>

type_synonym byte = "8 word"
type_synonym bytes = "byte list"
type_synonym str = "nat list"

datatype py_error = IndexError | UnicodeDecodeError

text \<open>\<^verbatim>\<open>len(content)\<close>\<close>

definition len :: "'a list \<Rightarrow> int" where
  "len xs = int (length xs)"

text \<open>A string literal of the source, as code points.\<close>

definition lit :: "string \<Rightarrow> str" where
  "lit s = map of_char s"

text \<open>
  \<^verbatim>\<open>content[i]\<close> on a bytes object: an integer result, a negative index counts from the
  end, and an index outside the object raises IndexError.
\<close>

definition getitem :: "bytes \<Rightarrow> int \<Rightarrow> py_error + int" where
  "getitem content i =
     (let j = (if i < 0 then i + len content else i)
      in if 0 \<le> j \<and> j < len content then Inr (uint (content ! nat j)) else Inl IndexError)"

text \<open>\<^verbatim>\<open>range(start, stop)\<close>: the integers from \<open>start\<close> up to, excluding, \<open>stop\<close>.\<close>

definition py_range :: "int \<Rightarrow> int \<Rightarrow> int list" where
  "py_range start stop = [start..stop - 1]"

text \<open>
  \<^verbatim>\<open>content[start:stop]\<close>: both bounds are clamped to the object, a negative bound counts
  from the end, and an empty range gives an empty result; a slice never raises.
\<close>

definition slice_index :: "int \<Rightarrow> int \<Rightarrow> int" where
  "slice_index n i = (if i < 0 then max 0 (i + n) else min i n)"

definition slice :: "'a list \<Rightarrow> int \<Rightarrow> int \<Rightarrow> 'a list" where
  "slice xs start stop =
     (let lo = slice_index (len xs) start; hi = slice_index (len xs) stop
      in take (nat (hi - lo)) (drop (nat lo) xs))"

text \<open>
  \<^verbatim>\<open>content.find(sub, start)\<close> and \<^verbatim>\<open>content.rfind(sub, start, end)\<close>, for the one-byte
  pattern the scripts search (\<^verbatim>\<open>b'\n'\<close>).  The bounds are adjusted as for a slice, except
  that \<open>start\<close> is not clamped to the length; the lowest (for \<open>rfind\<close>: highest) index in
  \<open>[start, end)\<close> holding the byte is returned, and \<open>-1\<close> when there is none.
\<close>

fun index_from :: "byte \<Rightarrow> bytes \<Rightarrow> int \<Rightarrow> int" where
  "index_from c [] i = - 1"
| "index_from c (b # bs) i = (if b = c then i else index_from c bs (i + 1))"

fun rindex_from :: "byte \<Rightarrow> bytes \<Rightarrow> int \<Rightarrow> int" where
  "rindex_from c [] i = - 1"
| "rindex_from c (b # bs) i =
     (let r = rindex_from c bs (i + 1)
      in if r \<noteq> - 1 then r else if b = c then i else - 1)"

definition adjust_start :: "int \<Rightarrow> int \<Rightarrow> int" where
  "adjust_start n start = (if start < 0 then max 0 (start + n) else start)"

definition adjust_end :: "int \<Rightarrow> int \<Rightarrow> int" where
  "adjust_end n stop = (if stop > n then n else if stop < 0 then max 0 (stop + n) else stop)"

definition bytes_find3 :: "bytes \<Rightarrow> byte \<Rightarrow> int \<Rightarrow> int \<Rightarrow> int" where
  "bytes_find3 content c start stop =
     (let lo = adjust_start (len content) start; hi = adjust_end (len content) stop
      in if hi - lo < 1 then - 1
         else index_from c (take (nat (hi - lo)) (drop (nat lo) content)) lo)"

text \<open>Without an \<open>end\<close> argument the search runs to the end of the object.\<close>

definition bytes_find :: "bytes \<Rightarrow> byte \<Rightarrow> int \<Rightarrow> int" where
  "bytes_find content c start = bytes_find3 content c start (len content)"

definition bytes_rfind :: "bytes \<Rightarrow> byte \<Rightarrow> int \<Rightarrow> int \<Rightarrow> int" where
  "bytes_rfind content c start stop =
     (let lo = adjust_start (len content) start; hi = adjust_end (len content) stop
      in if hi - lo < 1 then - 1
         else rindex_from c (take (nat (hi - lo)) (drop (nat lo) content)) lo)"

text \<open>\<^verbatim>\<open>chr(n)\<close> for a byte value \<open>n\<close>: the one-character string of code point \<open>n\<close>.\<close>

definition chr :: "int \<Rightarrow> str" where
  "chr n = [nat n]"

subsection \<open>Format specifications of the f-strings\<close>

fun dec :: "nat \<Rightarrow> str" where
  "dec n = (if n < 10 then [48 + n] else dec (n div 10) @ [48 + n mod 10])"

definition hex_digit :: "nat \<Rightarrow> nat" where
  "hex_digit d = (if d < 10 then 48 + d else 87 + d)"

fun hex :: "nat \<Rightarrow> str" where
  "hex n = (if n < 16 then [hex_digit n] else hex (n div 16) @ [hex_digit (n mod 16)])"

declare dec.simps [simp del] hex.simps [simp del]

text \<open>\<^verbatim>\<open>{n}\<close>: the decimal digits, with a minus sign for a negative number.\<close>

definition format_d :: "int \<Rightarrow> str" where
  "format_d n = (if n < 0 then 45 # dec (nat (- n)) else dec (nat n))"

text \<open>\<^verbatim>\<open>{n:4d}\<close>, \<^verbatim>\<open>{n:3d}\<close>: decimal, right-aligned with spaces in a field of the width.\<close>

definition format_wd :: "nat \<Rightarrow> int \<Rightarrow> str" where
  "format_wd width n = replicate (width - length (format_d n)) 32 @ format_d n"

text \<open>\<^verbatim>\<open>{n:02x}\<close>: lower-case hexadecimal, padded with zeros after the sign to the width.\<close>

definition format_0x :: "nat \<Rightarrow> int \<Rightarrow> str" where
  "format_0x width n =
     (if n < 0 then 45 # replicate (width - 1 - length (hex (nat (- n)))) 48 @ hex (nat (- n))
      else replicate (width - length (hex (nat n))) 48 @ hex (nat n))"

section \<open>Decoding UTF-8 with an error handler\<close>

text \<open>
  \<^verbatim>\<open>bytes.decode('utf-8', errors=...)\<close> is part of the Python runtime and not of the
  repository; it is modelled here after the reference implementation.  One step looks at
  the bytes not yet consumed and either decodes one code point from 1 to 4 bytes, or
  reports an ill-formed sequence and the number of bytes the report covers: an invalid
  start byte covers that byte, an invalid continuation byte covers the bytes before it,
  and a sequence cut off by the end of the data covers the rest of the data.  Overlong
  forms (\<open>C0\<close>, \<open>C1\<close>, \<open>E0 80..9F\<close>, \<open>F0 80..8F\<close>), surrogates (\<open>ED A0..BF\<close>) and
  values above U+10FFFF (\<open>F4 90..\<close>, \<open>F5..FF\<close>) are ill-formed.
\<close>

datatype errors = Strict | Replace

datatype utf8_result = Decoded nat nat | Invalid nat

definition is_continuation :: "nat \<Rightarrow> bool" where
  "is_continuation b = (128 \<le> b \<and> b < 192)"

fun utf8_step :: "nat list \<Rightarrow> utf8_result" where
  "utf8_step [] = Invalid 0"
| "utf8_step (ch # rest) =
     (if ch < 128 then Decoded ch 1
      else if ch < 194 then Invalid 1
      else if ch < 224 then
        (case rest of
           [] \<Rightarrow> Invalid 1
         | ch2 # _ \<Rightarrow>
             if is_continuation ch2 then Decoded ((ch - 192) * 64 + (ch2 - 128)) 2
             else Invalid 1)
      else if ch < 240 then
        (case rest of
           [] \<Rightarrow> Invalid 1
         | ch2 # rest2 \<Rightarrow>
             if \<not> is_continuation ch2 \<or> (if ch2 < 160 then ch = 224 else ch = 237)
             then Invalid 1
             else (case rest2 of
                     [] \<Rightarrow> Invalid 2
                   | ch3 # _ \<Rightarrow>
                       if is_continuation ch3
                       then Decoded ((ch - 224) * 4096 + (ch2 - 128) * 64 + (ch3 - 128)) 3
                       else Invalid 2))
      else if ch < 245 then
        (case rest of
           [] \<Rightarrow> Invalid 1
         | ch2 # rest2 \<Rightarrow>
             if \<not> is_continuation ch2 \<or> (if ch2 < 144 then ch = 240 else ch = 244)
             then Invalid 1
             else (case rest2 of
                     [] \<Rightarrow> Invalid 2
                   | ch3 # rest3 \<Rightarrow>
                       if \<not> is_continuation ch3 then Invalid 2
                       else (case rest3 of
                               [] \<Rightarrow> Invalid 3
                             | ch4 # _ \<Rightarrow>
                                 if is_continuation ch4
                                 then Decoded ((ch - 240) * 262144 + (ch2 - 128) * 4096
                                               + (ch3 - 128) * 64 + (ch4 - 128)) 4
                                 else Invalid 3)))
      else Invalid 1)"

text \<open>
  The decoding loop.  With \<^verbatim>\<open>errors='strict'\<close> an ill-formed sequence raises
  UnicodeDecodeError; with \<^verbatim>\<open>errors='replace'\<close> it becomes one U+FFFD (65533) and
  decoding goes on after the bytes the report covers.
\<close>

function decode_utf8 :: "errors \<Rightarrow> nat list \<Rightarrow> py_error + str" where
  "decode_utf8 errs [] = Inr []"
| "decode_utf8 errs (b # bs) =
     (case utf8_step (b # bs) of
        Decoded cp n \<Rightarrow>
          (case decode_utf8 errs (drop n (b # bs)) of
             Inl e \<Rightarrow> Inl e
           | Inr s \<Rightarrow> Inr (cp # s))
      | Invalid n \<Rightarrow>
          (case errs of
             Strict \<Rightarrow> Inl UnicodeDecodeError
           | Replace \<Rightarrow>
               (case decode_utf8 errs (drop n (b # bs)) of
                  Inl e \<Rightarrow> Inl e
                | Inr s \<Rightarrow> Inr (65533 # s))))"
  by pat_completeness auto

termination
proof (relation "measure (\<lambda>(errs, bs). length bs)")
  show "wf (measure (\<lambda>(errs, bs). length bs))" by simp
next
  fix errs :: errors and b :: nat and bs cp n
  assume "utf8_step (b # bs) = Decoded cp n"
  then have "0 < n" by (auto split: if_splits list.splits)
  then show "((errs, drop n (b # bs)), (errs, b # bs)) \<in> measure (\<lambda>(errs, bs). length bs)"
    by simp
next
  fix errs :: errors and b :: nat and bs n
  assume "utf8_step (b # bs) = Invalid n"
  then have "0 < n" by (auto split: if_splits list.splits)
  then show "((errs, drop n (b # bs)), (errs, b # bs)) \<in> measure (\<lambda>(errs, bs). length bs)"
    by simp
qed

text \<open>\<^verbatim>\<open>data.decode('utf-8', errors=errs)\<close>\<close>

definition decode :: "errors \<Rightarrow> bytes \<Rightarrow> py_error + str" where
  "decode errs data = decode_utf8 errs (map unat data)"

section \<open>What a run of a script leaves behind\<close>

text \<open>
  A script prints lines and either runs to its end or stops at an exception that nothing
  catches.  \<open>stdout\<close> holds one string for each \<^verbatim>\<open>print\<close> call made, in order, and
  \<open>raised\<close> the exception that ended the run, if any.  What was printed before an
  exception stays printed.
\<close>

record outcome =
  stdout :: "str list"
  raised :: "py_error option"

text \<open>
  One iteration of a listing loop: the offset \<open>i\<close>, the byte read there, the text shown
  for it (the variable \<^verbatim>\<open>char\<close>), and whether \<open>i\<close> is the inspected position
  (the test \<^verbatim>\<open>i == 1175\<close>).
\<close>

record entry =
  entry_offset :: int
  entry_byte :: int
  entry_char :: str
  entry_flagged :: bool

text \<open>
  Both scripts fix the inspected position and the window sizes as literals
  (\<^verbatim>\<open>1175\<close>; \<^verbatim>\<open>1175 - 5\<close>, \<^verbatim>\<open>1175 + 15\<close>; \<^verbatim>\<open>1175 - 50\<close>, \<^verbatim>\<open>1175 + 50\<close>; \<^verbatim>\<open>1175 - 10\<close>,
  \<^verbatim>\<open>1175 + 11\<close>).  The definitions below take them as the parameters \<open>pos\<close>, \<open>back\<close>
  and \<open>ahead\<close>; the scripts themselves are the instances at the literals.
\<close>

text \<open>\<^verbatim>\<open>max(0, 1175 - 5)\<close> and \<^verbatim>\<open>min(len(content), 1175 + 15)\<close>\<close>

definition window_start :: "int \<Rightarrow> int \<Rightarrow> int" where
  "window_start pos back = max 0 (pos - back)"

definition window_end :: "bytes \<Rightarrow> int \<Rightarrow> int \<Rightarrow> int" where
  "window_end content pos ahead = min (len content) (pos + ahead)"

text \<open>
  \<^verbatim>\<open>for i in range(start, end): byte_val = content[i]; char = ...; print(...)\<close>:
  the entries of the iterations that ran, and the exception of the one that did not.
\<close>

definition entry_of :: "(int \<Rightarrow> str) \<Rightarrow> int \<Rightarrow> int \<Rightarrow> int \<Rightarrow> entry" where
  "entry_of show_byte pos i byte_val =
     \<lparr>entry_offset = i, entry_byte = byte_val, entry_char = show_byte byte_val,
      entry_flagged = (i = pos)\<rparr>"

fun listing :: "(int \<Rightarrow> str) \<Rightarrow> bytes \<Rightarrow> int \<Rightarrow> int list \<Rightarrow> entry list \<times> py_error option" where
  "listing show_byte content pos [] = ([], None)"
| "listing show_byte content pos (i # rest) =
     (case getitem content i of
        Inl e \<Rightarrow> ([], Some e)
      | Inr byte_val \<Rightarrow>
          (case listing show_byte content pos rest of
             (entries, r) \<Rightarrow> (entry_of show_byte pos i byte_val # entries, r)))"

subsection \<open>check\_bytes\_correctly.py\<close>

text \<open>Line 15: \<^verbatim>\<open>chr(byte_val) if 32 <= byte_val <= 126 else f'\\x{byte_val:02x}'\<close>\<close>

definition render :: "int \<Rightarrow> str" where
  "render byte_val =
     (if 32 \<le> byte_val \<and> byte_val \<le> 126 then chr byte_val
      else [92, 120] @ format_0x 2 byte_val)"

text \<open>Lines 16 and 17: the marker and the printed line of one entry.\<close>

definition position_line :: "entry \<Rightarrow> str" where
  "position_line e =
     lit ''Position '' @ format_wd 4 (entry_offset e) @ lit '': 0x'' @ format_0x 2 (entry_byte e)
     @ lit '' ('' @ format_wd 3 (entry_byte e) @ lit '') '' @ [39] @ entry_char e @ [39]
     @ (if entry_flagged e then lit '' <<<<'' else [])"

text \<open>Lines 10 to 17: the entries of the loop over the window.\<close>

definition bytes_around :: "int \<Rightarrow> int \<Rightarrow> int \<Rightarrow> bytes \<Rightarrow> entry list \<times> py_error option" where
  "bytes_around pos back ahead content =
     listing render content pos (py_range (window_start pos back) (window_end content pos ahead))"

text \<open>Lines 20 to 25 and 30: the line holding the position.\<close>

definition line_start :: "bytes \<Rightarrow> int \<Rightarrow> int" where
  "line_start content pos = bytes_rfind content 10 0 pos + 1"

definition line_end :: "bytes \<Rightarrow> int \<Rightarrow> int" where
  "line_end content pos =
     (let line_end = bytes_find content 10 pos
      in if line_end = - 1 then len content else line_end)"

definition line_content :: "bytes \<Rightarrow> int \<Rightarrow> bytes" where
  "line_content content pos = slice content (line_start content pos) (line_end content pos)"

definition offset_in_line :: "bytes \<Rightarrow> int \<Rightarrow> int" where
  "offset_in_line content pos = pos - line_start content pos"

text \<open>The script, statement by statement.\<close>

definition check_bytes_correctly_at :: "int \<Rightarrow> int \<Rightarrow> int \<Rightarrow> bytes \<Rightarrow> outcome" where
  "check_bytes_correctly_at pos back ahead content =
     (let out1 = [lit ''File length: '' @ format_d (len content),
                  lit ''Bytes around position 1175:'']
      in case bytes_around pos back ahead content of
           (entries, Some e) \<Rightarrow>
             \<lparr>stdout = out1 @ map position_line entries, raised = Some e\<rparr>
         | (entries, None) \<Rightarrow>
             (let out2 = out1 @ map position_line entries
                         @ [10 # lit ''Line containing position 1175:'']
              in case decode Replace (line_content content pos) of
                   Inl e \<Rightarrow> \<lparr>stdout = out2, raised = Some e\<rparr>
                 | Inr text \<Rightarrow>
                     \<lparr>stdout = out2 @ [[39] @ text @ [39],
                                        lit ''Offset within line: ''
                                        @ format_d (offset_in_line content pos)],
                      raised = None\<rparr>))"

definition check_bytes_correctly :: "bytes \<Rightarrow> outcome" where
  "check_bytes_correctly content = check_bytes_correctly_at 1175 5 15 content"

subsection \<open>find\_error\_char.py\<close>

text \<open>Lines 22 to 26: the printed line of one entry.\<close>

definition character_line :: "entry \<Rightarrow> str" where
  "character_line e =
     lit ''Position '' @ format_d (entry_offset e) @ lit '': '' @ [39] @ entry_char e @ [39]
     @ (if entry_flagged e then lit '' <<<< ERROR HERE'' else [])"

text \<open>Lines 21 to 26: the entries of the loop over the window; \<^verbatim>\<open>char = chr(content[i])\<close>.\<close>

definition characters_around :: "int \<Rightarrow> int \<Rightarrow> int \<Rightarrow> bytes \<Rightarrow> entry list \<times> py_error option" where
  "characters_around pos back ahead content =
     listing chr content pos (py_range (window_start pos back) (window_end content pos ahead))"

text \<open>Lines 12 to 14: the bytes of the context.\<close>

definition context_bytes :: "int \<Rightarrow> int \<Rightarrow> int \<Rightarrow> bytes \<Rightarrow> bytes" where
  "context_bytes pos back ahead content =
     slice content (window_start pos back) (window_end content pos ahead)"

text \<open>
  The script, statement by statement.  \<open>cback\<close> and \<open>cahead\<close> are the sizes of the
  context (both 50), \<open>back\<close> and \<open>ahead\<close> those of the listing (10 and 11).  Lines 8 and
  9 each read \<^verbatim>\<open>content[1175]\<close>.
\<close>

definition find_error_char_at :: "int \<Rightarrow> int \<Rightarrow> int \<Rightarrow> int \<Rightarrow> int \<Rightarrow> bytes \<Rightarrow> outcome" where
  "find_error_char_at pos cback cahead back ahead content =
     (let out1 = [lit ''File length: '' @ format_d (len content)]
      in case getitem content pos of
           Inl e \<Rightarrow> \<lparr>stdout = out1, raised = Some e\<rparr>
         | Inr b1 \<Rightarrow>
             (let out2 = out1 @ [lit ''Character at position 1175: '' @ chr b1]
              in case getitem content pos of
                   Inl e \<Rightarrow> \<lparr>stdout = out2, raised = Some e\<rparr>
                 | Inr b2 \<Rightarrow>
                     (let out3 = out2 @ [lit ''Byte value: '' @ format_d b2,
                                         10 # lit ''Context around position 1175:'']
                      in case decode Replace (context_bytes pos cback cahead content) of
                           Inl e \<Rightarrow> \<lparr>stdout = out3, raised = Some e\<rparr>
                         | Inr text \<Rightarrow>
                             (let out4 = out3 @ [text,
                                                 10 # lit ''Characters around position 1175:'']
                              in case characters_around pos back ahead content of
                                   (entries, r) \<Rightarrow>
                                     \<lparr>stdout = out4 @ map character_line entries,
                                      raised = r\<rparr>))))"

definition find_error_char :: "bytes \<Rightarrow> outcome" where
  "find_error_char content = find_error_char_at 1175 50 50 10 11 content"

subsection \<open>An example file\<close>

text \<open>The eight bytes \<^verbatim>\<open>b"abc\ndef\n"\<close>.\<close>

definition scenario :: bytes where
  "scenario = [0x61, 0x62, 0x63, 0x0A, 0x64, 0x65, 0x66, 0x0A]"

text \<open>The eight bytes \<^verbatim>\<open>b"ab\ncd\nef"\<close>: the byte at offset 5 is a newline.\<close>

definition three_lines :: bytes where
  "three_lines = [0x61, 0x62, 0x0A, 0x63, 0x64, 0x0A, 0x65, 0x66]"

text \<open>A file of 1176 bytes: 1175 spaces, then a newline at offset 1175.\<close>

definition newline_at_1175 :: bytes where
  "newline_at_1175 = replicate 1175 0x20 @ [0x0A]"

text \<open>
  The six bytes \<^verbatim>\<open>b"\xc3\xa9\xc3\xa9x\n"\<close>: two characters of two bytes each, then \<open>x\<close>
  at offset 4.
\<close>

definition accented_line :: bytes where
  "accented_line = [0xC3, 0xA9, 0xC3, 0xA9, 0x78, 0x0A]"

text \<open>
  A file of 1177 bytes: 1170 spaces and a newline, then the same line, so that its \<open>x\<close> is
  at offset 1175.
\<close>

definition accented_at_1175 :: bytes where
  "accented_at_1175 = replicate 1170 0x20 @ [0x0A, 0xC3, 0xA9, 0xC3, 0xA9, 0x78, 0x0A]"

text \<open>The two bytes \<^verbatim>\<open>b"hi"\<close>.\<close>

definition hi_file :: bytes where
  "hi_file = [0x68, 0x69]"

section \<open>Basic facts about the runtime operations\<close>

lemma set_py_range: "set (py_range a b) = {i. a \<le> i \<and> i < b}"
  by (auto simp: py_range_def)

lemma window_in_range:
  "i \<in> set (py_range (window_start pos back) (window_end content pos ahead)) \<Longrightarrow>
     0 \<le> i \<and> i < len content"
  by (auto simp: set_py_range window_start_def window_end_def)

lemma getitem_in_range:
  "0 \<le> i \<Longrightarrow> i < len content \<Longrightarrow> getitem content i = Inr (uint (content ! nat i))"
  by (simp add: getitem_def)

lemma getitem_beyond:
  "len content \<le> i \<Longrightarrow> getitem content i = Inl IndexError"
  by (simp add: getitem_def len_def)

lemma listing_in_range:
  "\<forall>i\<in>set idxs. 0 \<le> i \<and> i < len content \<Longrightarrow>
   listing f content pos idxs =
     (map (\<lambda>i. entry_of f pos i (uint (content ! nat i))) idxs, None)"
  by (induction idxs) (simp_all add: getitem_in_range)

lemma index_from_absent: "c \<notin> set bs \<Longrightarrow> index_from c bs k = - 1"
  by (induction bs arbitrary: k) auto

lemma index_from_present:
  "c \<in> set bs \<Longrightarrow>
   \<exists>j<length bs. index_from c bs k = k + int j \<and> bs ! j = c \<and> c \<notin> set (take j bs)"
proof (induction bs arbitrary: k)
  case Nil
  then show ?case by simp
next
  case (Cons b bs)
  show ?case
  proof (cases "b = c")
    case True
    then show ?thesis by (intro exI [of _ 0]) simp
  next
    case False
    with Cons.prems have "c \<in> set bs" by simp
    from Cons.IH [OF this, of "k + 1"] obtain j where
      "j < length bs" "index_from c bs (k + 1) = k + 1 + int j" "bs ! j = c" "c \<notin> set (take j bs)"
      by blast
    with False show ?thesis by (intro exI [of _ "Suc j"]) simp
  qed
qed

lemma rindex_from_absent: "c \<notin> set bs \<Longrightarrow> rindex_from c bs k = - 1"
  by (induction bs arbitrary: k) (auto simp: Let_def)

lemma rindex_from_present:
  "c \<in> set bs \<Longrightarrow> 0 \<le> k \<Longrightarrow>
   \<exists>j<length bs. rindex_from c bs k = k + int j \<and> bs ! j = c \<and> c \<notin> set (drop (Suc j) bs)"
proof (induction bs arbitrary: k)
  case Nil
  then show ?case by simp
next
  case (Cons b bs)
  show ?case
  proof (cases "c \<in> set bs")
    case True
    from Cons.IH [OF True, of "k + 1"] Cons.prems obtain j where
      j: "j < length bs" "rindex_from c bs (k + 1) = k + 1 + int j" "bs ! j = c"
         "c \<notin> set (drop (Suc j) bs)"
      by auto
    with Cons.prems have "rindex_from c bs (k + 1) \<noteq> - 1" by simp
    with j show ?thesis by (intro exI [of _ "Suc j"]) (simp add: Let_def)
  next
    case False
    with Cons.prems have "b = c" by simp
    with False show ?thesis
      by (intro exI [of _ 0]) (simp add: Let_def rindex_from_absent)
  qed
qed

lemma decode_utf8_replace: "\<exists>s. decode_utf8 Replace bs = Inr s"
proof (induction "Replace" bs rule: decode_utf8.induct)
  case 1
  then show ?case by simp
next
  case (2 b bs)
  show ?case
  proof (cases "utf8_step (b # bs)")
    case (Decoded cp n)
    with 2(1) [OF Decoded] show ?thesis by auto
  next
    case (Invalid n)
    with 2(2) [OF Invalid] show ?thesis by auto
  qed
qed

subsection \<open>The two error handlers of the decoder\<close>







lemma utf8_step_lone_byte: "128 \<le> b \<Longrightarrow> \<exists>m. utf8_step [b] = Invalid m"
  by simp




lemma decode_utf8_strict_invalid:
  "utf8_step (x # xs) = Invalid m \<Longrightarrow> decode_utf8 Strict (x # xs) = Inl UnicodeDecodeError"
  by simp




section \<open>The boundaries of the line\<close>

lemma in_set_take_drop:
  "x \<in> set (take a (drop b xs)) \<longleftrightarrow> (\<exists>i. b \<le> i \<and> i < b + a \<and> i < length xs \<and> xs ! i = x)"
proof
  assume "x \<in> set (take a (drop b xs))"
  then obtain j where j: "j < length (take a (drop b xs))" "take a (drop b xs) ! j = x"
    by (auto simp: in_set_conv_nth)
  then have "b + j < length xs" "j < a" by auto
  with j show "\<exists>i. b \<le> i \<and> i < b + a \<and> i < length xs \<and> xs ! i = x"
    by (intro exI [of _ "b + j"]) auto
next
  assume "\<exists>i. b \<le> i \<and> i < b + a \<and> i < length xs \<and> xs ! i = x"
  then obtain i where i: "b \<le> i" "i < b + a" "i < length xs" "xs ! i = x" by blast
  then have "i - b < length (take a (drop b xs))" by auto
  moreover from i have "take a (drop b xs) ! (i - b) = x" by auto
  ultimately show "x \<in> set (take a (drop b xs))" by (metis nth_mem)
qed

lemma bytes_rfind_prefix:
  "0 \<le> pos \<Longrightarrow>
   bytes_rfind content c 0 pos = rindex_from c (take (nat pos) content) 0"
  by (auto simp: bytes_rfind_def adjust_start_def adjust_end_def len_def Let_def)

lemma bytes_find_suffix:
  "0 \<le> pos \<Longrightarrow>
   bytes_find content c pos = index_from c (drop (nat pos) content) pos"
  by (auto simp: bytes_find_def bytes_find3_def adjust_start_def adjust_end_def len_def Let_def)

lemma line_start_cases:
  assumes "0 \<le> pos"
  shows "(line_start content pos = 0 \<and> 10 \<notin> set (take (nat pos) content)) \<or>
         (\<exists>j. j < nat pos \<and> j < length content \<and> line_start content pos = int j + 1 \<and>
              content ! j = 10 \<and> (\<forall>i. j < i \<and> i < nat pos \<and> i < length content \<longrightarrow> content ! i \<noteq> 10))"
proof (cases "10 \<in> set (take (nat pos) content)")
  case False
  then show ?thesis
    by (simp add: line_start_def bytes_rfind_prefix [OF assms] rindex_from_absent)
next
  case True
  from rindex_from_present [OF True, of 0] obtain j where
    j: "j < length (take (nat pos) content)"
       "rindex_from 10 (take (nat pos) content) 0 = int j"
       "take (nat pos) content ! j = 10"
       "10 \<notin> set (drop (Suc j) (take (nat pos) content))"
    by auto
  have "\<forall>i. j < i \<and> i < nat pos \<and> i < length content \<longrightarrow> content ! i \<noteq> 10"
  proof (intro allI impI)
    fix i assume i: "j < i \<and> i < nat pos \<and> i < length content"
    have "drop (Suc j) (take (nat pos) content) = take (nat pos - Suc j) (drop (Suc j) content)"
      by (simp add: drop_take)
    with j(4) have "10 \<notin> set (take (nat pos - Suc j) (drop (Suc j) content))" by simp
    with i show "content ! i \<noteq> 10" unfolding in_set_take_drop by auto
  qed
  with j show ?thesis
    by (intro disjI2 exI [of _ j]) (simp add: line_start_def bytes_rfind_prefix [OF assms])
qed

lemma line_end_cases:
  assumes "0 \<le> pos"
  shows "(line_end content pos = len content \<and> 10 \<notin> set (drop (nat pos) content)) \<or>
         (\<exists>j. nat pos \<le> j \<and> j < length content \<and> line_end content pos = int j \<and>
              content ! j = 10 \<and> (\<forall>i. nat pos \<le> i \<and> i < j \<longrightarrow> content ! i \<noteq> 10))"
proof (cases "10 \<in> set (drop (nat pos) content)")
  case False
  then show ?thesis
    by (simp add: line_end_def bytes_find_suffix [OF assms] index_from_absent)
next
  case True
  from index_from_present [OF True, of pos] obtain j where
    j: "j < length (drop (nat pos) content)"
       "index_from 10 (drop (nat pos) content) pos = pos + int j"
       "drop (nat pos) content ! j = 10"
       "10 \<notin> set (take j (drop (nat pos) content))"
    by auto
  have "\<forall>i. nat pos \<le> i \<and> i < nat pos + j \<longrightarrow> content ! i \<noteq> 10"
  proof (intro allI impI)
    fix i assume i: "nat pos \<le> i \<and> i < nat pos + j"
    with j(1) have "i < length content" by (simp add: less_diff_conv)
    with j(4) i show "content ! i \<noteq> 10" unfolding in_set_take_drop by auto
  qed
  moreover from j assms have "line_end content pos = int (nat pos + j)"
    by (simp add: line_end_def bytes_find_suffix [OF assms])
  ultimately show ?thesis using j
    by (intro disjI2 exI [of _ "nat pos + j"]) auto
qed

lemma slice_ordered:
  "0 \<le> lo \<Longrightarrow> lo \<le> hi \<Longrightarrow> hi \<le> len xs \<Longrightarrow>
   slice xs lo hi = take (nat (hi - lo)) (drop (nat lo) xs)"
  by (simp add: slice_def slice_index_def len_def Let_def min_def)

lemma line_start_bounds:
  assumes "0 \<le> pos"
  shows "0 \<le> line_start content pos" "line_start content pos \<le> pos"
        "line_start content pos \<le> len content"
  using line_start_cases [OF assms, of content] assms by (auto simp: len_def)

lemma in_set_drop:
  "x \<in> set (drop b xs) \<longleftrightarrow> (\<exists>i. b \<le> i \<and> i < length xs \<and> xs ! i = x)"
  using in_set_take_drop [of x "length xs" b xs] by auto

lemma line_end_bounds:
  assumes "0 \<le> pos"
  shows "line_end content pos \<le> len content"
        "pos \<le> len content \<Longrightarrow> pos \<le> line_end content pos"
        "line_start content pos \<le> line_end content pos"
proof -
  from line_end_cases [OF assms, of content]
  show "line_end content pos \<le> len content" by (auto simp: len_def)
  from line_end_cases [OF assms, of content] assms
  show "pos \<le> len content \<Longrightarrow> pos \<le> line_end content pos" by (auto simp: len_def)
  from line_end_cases [OF assms, of content] line_start_bounds [OF assms, of content] assms
  show "line_start content pos \<le> line_end content pos" by (auto simp: len_def)
qed

lemma line_content_eq:
  assumes "0 \<le> pos"
  shows "line_content content pos =
           take (nat (line_end content pos - line_start content pos))
                (drop (nat (line_start content pos)) content)"
  unfolding line_content_def
  by (rule slice_ordered) (simp_all add: line_start_bounds [OF assms] line_end_bounds [OF assms])

lemma line_start_nearest:
  assumes "0 \<le> pos" "nat (line_start content pos) \<le> i" "i < nat pos" "i < length content"
  shows "content ! i \<noteq> 10"
  using line_start_cases [OF assms(1), of content] assms(2-4)
  by (auto simp: in_set_take_drop [of _ _ 0, simplified] in_set_conv_nth)

lemma line_end_nearest:
  assumes "0 \<le> pos" "nat pos \<le> i" "i < nat (line_end content pos)"
  shows "content ! i \<noteq> 10"
proof -
  from line_end_cases [OF assms(1), of content] show ?thesis
  proof (elim disjE conjE exE)
    assume "line_end content pos = len content" "10 \<notin> set (drop (nat pos) content)"
    with assms show ?thesis by (auto simp: len_def in_set_drop)
  next
    fix j assume "line_end content pos = int j"
      "\<forall>i. nat pos \<le> i \<and> i < j \<longrightarrow> content ! i \<noteq> 10"
    with assms show ?thesis by auto
  qed
qed

lemma line_content_no_newline:
  assumes "0 \<le> pos"
  shows "10 \<notin> set (line_content content pos)"
proof
  assume "10 \<in> set (line_content content pos)"
  then obtain i where i: "nat (line_start content pos) \<le> i"
      "i < nat (line_start content pos) + nat (line_end content pos - line_start content pos)"
      "i < length content" "content ! i = 10"
    unfolding line_content_eq [OF assms] in_set_take_drop by blast
  from i(2) line_start_bounds [OF assms, of content] line_end_bounds(3) [OF assms, of content]
  have le: "i < nat (line_end content pos)" by linarith
  show False
  proof (cases "i < nat pos")
    case True
    with line_start_nearest [OF assms i(1) _ i(3)] i(4) show False by simp
  next
    case False
    with line_end_nearest [OF assms _ le] i(4) show False by simp
  qed
qed

lemma scenario_line:
  "line_start scenario 5 = 4" "line_end scenario 5 = 7"
  "line_content scenario 5 = [0x64, 0x65, 0x66]" "offset_in_line scenario 5 = 1"
  by (simp_all add: scenario_def offset_in_line_def line_content_def line_start_def line_end_def
      bytes_rfind_def bytes_find_def bytes_find3_def adjust_start_def adjust_end_def len_def
      slice_def slice_index_def Let_def)

lemma three_lines_line:
  "line_start three_lines 5 = 3" "line_end three_lines 5 = 5"
  "line_content three_lines 5 = [0x63, 0x64]" "offset_in_line three_lines 5 = 2"
  by (simp_all add: three_lines_def offset_in_line_def line_content_def line_start_def line_end_def
      bytes_rfind_def bytes_find_def bytes_find3_def adjust_start_def adjust_end_def len_def
      slice_def slice_index_def Let_def)

lemma line_start_boundary:
  assumes "0 \<le> pos" and "pos \<le> len content"
  shows "(line_start content pos = 0 \<and> (\<forall>i<nat pos. content ! i \<noteq> 10))
         \<or> (0 < line_start content pos \<and> line_start content pos \<le> pos
             \<and> content ! nat (line_start content pos - 1) = 10
             \<and> (\<forall>i. nat (line_start content pos) \<le> i \<and> i < nat pos \<longrightarrow> content ! i \<noteq> 10))"
proof -
  from line_start_cases [OF assms(1), of content] show ?thesis
  proof (elim disjE conjE exE)
    assume a: "line_start content pos = 0" "10 \<notin> set (take (nat pos) content)"
    have "\<forall>i<nat pos. content ! i \<noteq> 10"
    proof (intro allI impI)
      fix i assume "i < nat pos"
      with assms have "i < length (take (nat pos) content)" "take (nat pos) content ! i = content ! i"
        by (simp_all add: len_def)
      with a(2) show "content ! i \<noteq> 10" by (metis nth_mem)
    qed
    with a(1) show ?thesis by simp
  next
    fix j assume j: "j < nat pos" "j < length content" "line_start content pos = int j + 1"
      "content ! j = 10" "\<forall>i. j < i \<and> i < nat pos \<and> i < length content \<longrightarrow> content ! i \<noteq> 10"
    from assms have "\<And>i. i < nat pos \<Longrightarrow> i < length content" by (simp add: len_def)
    with j show ?thesis by (intro disjI2) auto
  qed
qed

lemma line_end_boundary:
  assumes "0 \<le> pos"
  shows "(line_end content pos = len content
          \<and> (\<forall>i. nat pos \<le> i \<and> i < length content \<longrightarrow> content ! i \<noteq> 10))
         \<or> (pos \<le> line_end content pos \<and> line_end content pos < len content
             \<and> content ! nat (line_end content pos) = 10
             \<and> (\<forall>i. nat pos \<le> i \<and> i < nat (line_end content pos) \<longrightarrow> content ! i \<noteq> 10))"
proof -
  from line_end_cases [OF assms, of content] show ?thesis
  proof (elim disjE conjE exE)
    assume a: "line_end content pos = len content" "10 \<notin> set (drop (nat pos) content)"
    then show ?thesis by (auto simp: in_set_drop)
  next
    fix j assume j: "nat pos \<le> j" "j < length content" "line_end content pos = int j"
      "content ! j = 10" "\<forall>i. nat pos \<le> i \<and> i < j \<longrightarrow> content ! i \<noteq> 10"
    with assms show ?thesis by (intro disjI2) (auto simp: len_def)
  qed
qed

lemma line_end_at_newline:
  assumes "0 \<le> pos" and "pos < len content" and "content ! nat pos = 10"
  shows "line_end content pos = pos"
proof -
  from assms have lt: "nat pos < length content" by (simp add: len_def)
  from Cons_nth_drop_Suc [OF lt, symmetric] assms(3)
  have "drop (nat pos) content = 10 # drop (Suc (nat pos)) content" by simp
  with assms show ?thesis
    by (simp add: line_end_def bytes_find_suffix Let_def)
qed

lemma rindex_from_replicate:
  "c \<noteq> b \<Longrightarrow> rindex_from c (replicate n b @ xs) k = rindex_from c xs (k + int n)"
  by (induction n arbitrary: k) (simp_all add: Let_def add.assoc)

lemma accented_line_line:
  "line_start accented_line 4 = 0" "line_end accented_line 4 = 5"
  "line_content accented_line 4 = [0xC3, 0xA9, 0xC3, 0xA9, 0x78]"
  "offset_in_line accented_line 4 = 4"
  by (simp_all add: accented_line_def offset_in_line_def line_content_def line_start_def
      line_end_def bytes_rfind_def bytes_find_def bytes_find3_def adjust_start_def adjust_end_def
      len_def slice_def slice_index_def Let_def)

lemma decode_accented: "decode Replace [0xC3, 0xA9, 0xC3, 0xA9, 0x78] = Inr [233, 233, 120]"
  by (simp add: decode_def is_continuation_def)

lemma accented_at_1175_line:
  "line_start accented_at_1175 1175 = 1171" "line_end accented_at_1175 1175 = 1176"
  "line_content accented_at_1175 1175 = [0xC3, 0xA9, 0xC3, 0xA9, 0x78]"
  "offset_in_line accented_at_1175 1175 = 4"
proof -
  have "rindex_from 10 (replicate 1170 0x20 @ [0x0A, 0xC3, 0xA9, 0xC3, 0xA9]) 0 = 1170"
    by (simp add: rindex_from_replicate Let_def)
  then show s: "line_start accented_at_1175 1175 = 1171"
    by (simp add: line_start_def bytes_rfind_prefix accented_at_1175_def)
  show e: "line_end accented_at_1175 1175 = 1176"
    by (simp add: line_end_def bytes_find_suffix accented_at_1175_def Let_def)
  from s e show "line_content accented_at_1175 1175 = [0xC3, 0xA9, 0xC3, 0xA9, 0x78]"
    by (simp add: line_content_eq) (simp add: accented_at_1175_def)
  from s show "offset_in_line accented_at_1175 1175 = 4" by (simp add: offset_in_line_def)
qed

lemma offset_line_4: "lit ''Offset within line: '' @ format_d 4 = lit ''Offset within line: 4''"
  by code_simp

section \<open>What the two scripts print\<close>

lemma bytes_around_eq:
  "bytes_around pos back ahead content =
     (map (\<lambda>i. entry_of render pos i (uint (content ! nat i)))
          (py_range (window_start pos back) (window_end content pos ahead)), None)"
  unfolding bytes_around_def
  by (rule listing_in_range) (simp add: window_in_range)

lemma characters_around_eq:
  "characters_around pos back ahead content =
     (map (\<lambda>i. entry_of chr pos i (uint (content ! nat i)))
          (py_range (window_start pos back) (window_end content pos ahead)), None)"
  unfolding characters_around_def
  by (rule listing_in_range) (simp add: window_in_range)

lemma decode_replace: "\<exists>text. decode Replace data = Inr text"
  unfolding decode_def by (rule decode_utf8_replace)

lemma check_bytes_correctly_at_eq:
  assumes "decode Replace (line_content content pos) = Inr text"
  shows "check_bytes_correctly_at pos back ahead content =
     \<lparr>stdout = [lit ''File length: '' @ format_d (len content),
                lit ''Bytes around position 1175:'']
               @ map position_line (fst (bytes_around pos back ahead content))
               @ [10 # lit ''Line containing position 1175:'',
                  [39] @ text @ [39],
                  lit ''Offset within line: '' @ format_d (offset_in_line content pos)],
      raised = None\<rparr>"
  by (simp add: check_bytes_correctly_at_def bytes_around_eq assms)

lemma find_error_char_at_short:
  assumes "len content \<le> pos"
  shows "find_error_char_at pos cback cahead back ahead content =
     \<lparr>stdout = [lit ''File length: '' @ format_d (len content)], raised = Some IndexError\<rparr>"
  by (simp add: find_error_char_at_def getitem_beyond [OF assms])

lemma find_error_char_at_eq:
  assumes "0 \<le> pos" "pos < len content"
    and "decode Replace (context_bytes pos cback cahead content) = Inr text"
  shows "find_error_char_at pos cback cahead back ahead content =
     \<lparr>stdout = [lit ''File length: '' @ format_d (len content),
                lit ''Character at position 1175: '' @ chr (uint (content ! nat pos)),
                lit ''Byte value: '' @ format_d (uint (content ! nat pos)),
                10 # lit ''Context around position 1175:'',
                text,
                10 # lit ''Characters around position 1175:'']
               @ map character_line (fst (characters_around pos back ahead content)),
      raised = None\<rparr>"
  by (simp add: find_error_char_at_def getitem_in_range [OF assms(1,2)] assms(3)
      characters_around_eq)

lemma filter_eq_distinct:
  "distinct xs \<Longrightarrow> filter (\<lambda>x. x = p) xs = (if p \<in> set xs then [p] else [])"
  by (induction xs) auto

lemma flagged_entries:
  "filter entry_flagged (map (\<lambda>i. entry_of f pos i (g i)) (py_range a b)) =
     (if a \<le> pos \<and> pos < b then [entry_of f pos pos (g pos)] else [])"
proof -
  have "filter entry_flagged (map (\<lambda>i. entry_of f pos i (g i)) (py_range a b)) =
        map (\<lambda>i. entry_of f pos i (g i)) (filter (\<lambda>i. i = pos) (py_range a b))"
    by (simp add: filter_map comp_def entry_of_def)
  also have "filter (\<lambda>i. i = pos) (py_range a b) = (if pos \<in> set (py_range a b) then [pos] else [])"
    by (rule filter_eq_distinct) (simp add: py_range_def)
  finally show ?thesis by (simp add: set_py_range)
qed

lemma entry_offsets:
  "map entry_offset (map (\<lambda>i. entry_of f pos i (g i)) idxs) = idxs"
  by (induction idxs) (simp_all add: entry_of_def)

lemma entry_of_sel [simp]:
  "entry_offset (entry_of f pos i b) = i"
  "entry_byte (entry_of f pos i b) = b"
  "entry_char (entry_of f pos i b) = f b"
  "entry_flagged (entry_of f pos i b) = (i = pos)"
  by (simp_all add: entry_of_def)

lemma bytes_around_offsets:
  "map entry_offset (fst (bytes_around pos back ahead content)) =
     py_range (window_start pos back) (window_end content pos ahead)"
  by (simp add: bytes_around_eq comp_def)

lemma characters_around_offsets:
  "map entry_offset (fst (characters_around pos back ahead content)) =
     py_range (window_start pos back) (window_end content pos ahead)"
  by (simp add: characters_around_eq comp_def)

lemma file_length_hi: "lit ''File length: '' @ format_d (len hi_file) = lit ''File length: 2''"
  by (simp add: len_def hi_file_def format_d_def dec.simps lit_def)

lemma check_bytes_correctly_at_raised:
  "raised (check_bytes_correctly_at pos back ahead content) = None"
proof -
  from decode_replace obtain s where "decode Replace (line_content content pos) = Inr s"
    by blast
  then show ?thesis by (simp add: check_bytes_correctly_at_eq)
qed

subsection \<open>How a byte is shown\<close>

lemma hex_one_digit: "n < 16 \<Longrightarrow> hex n = [hex_digit n]"
  by (subst hex.simps) simp

lemma hex_two_digits:
  "16 \<le> n \<Longrightarrow> n < 256 \<Longrightarrow> hex n = [hex_digit (n div 16), hex_digit (n mod 16)]"
  by (subst hex.simps) (simp add: hex_one_digit)

lemma format_0x_byte:
  assumes "0 \<le> n" and "n < 256"
  shows "format_0x 2 n = [hex_digit (nat n div 16), hex_digit (nat n mod 16)]"
proof (cases "nat n < 16")
  case True
  with assms show ?thesis
    by (simp add: format_0x_def hex_one_digit hex_digit_def numeral_2_eq_2)
next
  case False
  with assms have "16 \<le> nat n" "nat n < 256" by simp_all
  from hex_two_digits [OF this] assms show ?thesis by (simp add: format_0x_def)
qed

lemma render_byte:
  "render (uint (b :: byte)) =
     (if 32 \<le> uint b \<and> uint b \<le> 126 then [unat b]
      else [92, 120, hex_digit (unat b div 16), hex_digit (unat b mod 16)])"
proof -
  have "uint b < 256" using uint_bounded [of b] by simp
  then have "format_0x 2 (uint b) = [hex_digit (unat b div 16), hex_digit (unat b mod 16)]"
    by (simp add: format_0x_byte)
  then show ?thesis by (simp add: render_def chr_def)
qed

lemma newline_at_1175_bytes:
  "len newline_at_1175 = 1176"
  "i < 1175 \<Longrightarrow> newline_at_1175 ! i = 32"
  "newline_at_1175 ! 1175 = 10"
  by (simp_all add: newline_at_1175_def len_def nth_append)

lemma newline_at_1175_characters:
  "fst (characters_around 1175 10 11 newline_at_1175) =
     map (\<lambda>i. entry_of chr 1175 i 32) [1165..1174] @ [entry_of chr 1175 1175 10]"
  by (simp add: characters_around_eq window_start_def window_end_def py_range_def
      newline_at_1175_bytes)

lemma newline_at_1175_entries:
  "fst (bytes_around 1175 5 15 newline_at_1175) =
     map (\<lambda>i. entry_of render 1175 i 32) [1170..1174] @ [entry_of render 1175 1175 10]"
  by (simp add: bytes_around_eq window_start_def window_end_def py_range_def
      newline_at_1175_bytes)

lemma newline_lines:
  "character_line (entry_of chr 1175 1175 10) =
     lit ''Position 1175: '' @ [39, 10, 39] @ lit '' <<<< ERROR HERE''"
  "position_line (entry_of render 1175 1175 10) =
     lit ''Position 1175: 0x0a ( 10) '' @ [39, 92, 120, 48, 97, 39] @ lit '' <<<<''"
  by code_simp+

lemma newline_at_1175_find_error_char:
  "\<exists>text. find_error_char newline_at_1175 =
     \<lparr>stdout = [lit ''File length: '' @ format_d (len newline_at_1175),
                lit ''Character at position 1175: '' @ [10],
                lit ''Byte value: '' @ format_d 10,
                10 # lit ''Context around position 1175:'',
                text,
                10 # lit ''Characters around position 1175:'']
               @ map character_line (fst (characters_around 1175 10 11 newline_at_1175)),
      raised = None\<rparr>"
proof -
  from decode_replace obtain s where
    s: "decode Replace (context_bytes 1175 50 50 newline_at_1175) = Inr s" by blast
  have v: "(0::int) \<le> 1175" "1175 < len newline_at_1175"
    by (simp_all add: newline_at_1175_bytes)
  from find_error_char_at_eq [OF v s, of 10 11] show ?thesis
    by (simp add: find_error_char_def newline_at_1175_bytes chr_def)
qed

subsection \<open>The example file, evaluated\<close>

lemma decode_scenario_line: "decode Replace [0x64, 0x65, 0x66] = Inr [100, 101, 102]"
  by (simp add: decode_def)

lemma scenario_listing:
  "fst (bytes_around 5 2 2 scenario) =
     [entry_of render 5 3 10, entry_of render 5 4 100, entry_of render 5 5 101,
      entry_of render 5 6 102]"
  by (simp add: bytes_around_eq window_start_def window_end_def py_range_def len_def scenario_def)

lemma scenario_lines:
  "position_line (entry_of render 5 3 10) =
     lit ''Position    3: 0x0a ( 10) '' @ [39, 92, 120, 48, 97, 39]"
  "position_line (entry_of render 5 4 100) = lit ''Position    4: 0x64 (100) '' @ [39, 100, 39]"
  "position_line (entry_of render 5 5 101) =
     lit ''Position    5: 0x65 (101) '' @ [39, 101, 39] @ lit '' <<<<''"
  "position_line (entry_of render 5 6 102) = lit ''Position    6: 0x66 (102) '' @ [39, 102, 39]"
  "lit ''File length: '' @ format_d (len scenario) = lit ''File length: 8''"
  "lit ''Offset within line: '' @ format_d 1 = lit ''Offset within line: 1''"
  by code_simp+

lemma scenario_report:
  "check_bytes_correctly_at 5 2 2 scenario =
     \<lparr>stdout = [lit ''File length: 8'',
                lit ''Bytes around position 1175:'',
                lit ''Position    3: 0x0a ( 10) '' @ [39, 92, 120, 48, 97, 39],
                lit ''Position    4: 0x64 (100) '' @ [39, 100, 39],
                lit ''Position    5: 0x65 (101) '' @ [39, 101, 39] @ lit '' <<<<'',
                lit ''Position    6: 0x66 (102) '' @ [39, 102, 39],
                10 # lit ''Line containing position 1175:'',
                [39, 100, 101, 102, 39],
                lit ''Offset within line: 1''],
      raised = None\<rparr>"
proof -
  have "decode Replace (line_content scenario 5) = Inr [100, 101, 102]"
    by (simp add: scenario_line decode_scenario_line)
  from check_bytes_correctly_at_eq [OF this, of 2 2] show ?thesis
    by (simp add: scenario_listing scenario_line scenario_lines)
qed

lemma scenario_target:
  "getitem scenario 5 = Inr 101" "chr 101 = lit ''e''" "uint (scenario ! 5) = 101"
  "lit ''Character at position 1175: '' @ chr 101 = lit ''Character at position 1175: e''"
  "lit ''Byte value: '' @ format_d 101 = lit ''Byte value: 101''"
  "decode Replace (line_content scenario 5) = Inr (lit ''def'')"
  by (simp_all add: getitem_def len_def scenario_def chr_def lit_def scenario_line [unfolded scenario_def]
      decode_scenario_line format_d_def dec.simps)

section \<open>The claims about the line holding the position\<close>

text \<open>
  Claim C10.  For every file content, and every inspected position that is not negative
  (the scripts inspect 1175), the computed line boundaries satisfy
  \<open>0 \<le> line_start \<le> line_end \<le> length\<close>, so the slice \<^verbatim>\<open>content[line_start:line_end]\<close>
  is the bytes from \<open>line_start\<close> up to \<open>line_end\<close>, and the extracted line holds no
  newline byte.
\<close>

theorem line_boundaries_well_formed:
  assumes "0 \<le> pos"
  shows "0 \<le> line_start content pos \<and> line_start content pos \<le> line_end content pos
         \<and> line_end content pos \<le> len content
         \<and> line_content content pos =
             take (nat (line_end content pos - line_start content pos))
                  (drop (nat (line_start content pos)) content)
         \<and> 10 \<notin> set (line_content content pos)"
  using line_start_bounds(1) [OF assms] line_end_bounds(1,3) [OF assms]
    line_content_eq [OF assms] line_content_no_newline [OF assms]
  by simp

theorem line_boundaries_well_formed_witness:
  "(0::int) \<le> 5 \<and> line_start scenario 5 = 4 \<and> line_end scenario 5 = 7 \<and> len scenario = 8
   \<and> 0 \<le> line_start scenario 5 \<and> line_start scenario 5 \<le> line_end scenario 5
   \<and> line_end scenario 5 \<le> len scenario
   \<and> 10 \<notin> set (line_content scenario 5)"
  using line_boundaries_well_formed [of 5 scenario] scenario_line
  by (simp add: len_def scenario_def)

text \<open>
  Claim C7, as the code has it.  For every file content and every valid inspected
  position (\<open>0 \<le> pos < length\<close>), the reported offset within the line is the position
  minus the start of the line, and it lies between 0 and the number of bytes of the line,
  \<open>line_end - line_start\<close>.  It counts bytes: the bound is on the bytes of the line and
  not on the characters of its decoded text.
\<close>

theorem column_in_line_bounds:
  assumes "0 \<le> pos" and "pos < len content"
  shows "offset_in_line content pos = pos - line_start content pos
         \<and> 0 \<le> offset_in_line content pos
         \<and> offset_in_line content pos \<le> len (line_content content pos)
         \<and> len (line_content content pos) = line_end content pos - line_start content pos"
proof -
  have "len (line_content content pos) = line_end content pos - line_start content pos"
    using line_start_bounds [OF assms(1), of content] line_end_bounds [OF assms(1), of content]
    by (simp add: line_content_eq [OF assms(1)] len_def)
  moreover have "pos \<le> line_end content pos"
    using line_end_bounds(2) [OF assms(1), of content] assms(2) by simp
  ultimately show ?thesis
    using line_start_bounds(2) [OF assms(1), of content] by (simp add: offset_in_line_def)
qed

theorem column_in_line_bounds_witness:
  "(0::int) \<le> 5 \<and> 5 < len scenario \<and> offset_in_line scenario 5 = 1
   \<and> len (line_content scenario 5) = 3
   \<and> 0 \<le> offset_in_line scenario 5
   \<and> offset_in_line scenario 5 \<le> len (line_content scenario 5)"
  using column_in_line_bounds [of 5 scenario] scenario_line
  by (simp add: len_def scenario_def)

text \<open>
  The claim as the specification states it bounds the column by the length of the line as
  the report shows it, the decoded text.  In \<^verbatim>\<open>b"\xc3\xa9\xc3\xa9x\n"\<close> the \<open>x\<close> at offset 4
  follows two characters of two bytes each: the column is 4 and the decoded line has 3
  characters.  With that line placed so that its \<open>x\<close> is at offset 1175,
  check\_bytes\_correctly.py prints a line of 3 characters between the quotes and
  \<^verbatim>\<open>Offset within line: 4\<close>.
\<close>

theorem column_exceeds_decoded_line:
  "offset_in_line accented_line 4 = 4
   \<and> decode Replace (line_content accented_line 4) = Inr [233, 233, 120]
   \<and> \<not> offset_in_line accented_line 4 \<le> len [233, 233, 120 :: nat]
   \<and> getitem accented_at_1175 1175 = Inr 120
   \<and> raised (check_bytes_correctly accented_at_1175) = None
   \<and> last (butlast (stdout (check_bytes_correctly accented_at_1175))) = [39, 233, 233, 120, 39]
   \<and> last (stdout (check_bytes_correctly accented_at_1175)) = lit ''Offset within line: 4''"
proof -
  have d: "decode Replace (line_content accented_at_1175 1175) = Inr [233, 233, 120]"
    by (simp add: accented_at_1175_line decode_accented)
  have "getitem accented_at_1175 1175 = Inr 120"
    by (simp add: getitem_def len_def accented_at_1175_def nth_append)
  moreover have "raised (check_bytes_correctly accented_at_1175) = None"
    "last (butlast (stdout (check_bytes_correctly accented_at_1175))) = [39, 233, 233, 120, 39]"
    "last (stdout (check_bytes_correctly accented_at_1175)) = lit ''Offset within line: 4''"
    unfolding check_bytes_correctly_def check_bytes_correctly_at_eq [OF d]
    by (simp_all add: butlast_append accented_at_1175_line offset_line_4)
  ultimately show ?thesis
    by (simp add: accented_line_line decode_accented len_def)
qed

text \<open>
  Claim C4, as the code has it.  For every file content and every valid position
  (\<open>0 \<le> pos < length\<close>), the line holding the position is the bytes from \<open>line_start\<close>
  up to \<open>line_end\<close>, where \<open>line_start\<close> follows the nearest newline byte strictly before
  the position (it is 0 when there is none) and \<open>line_end\<close> is the offset of the nearest
  newline byte at or after the position (it is the length of the file when there is
  none).  When the byte at the position is itself a newline, it is the forward boundary:
  \<open>line_end\<close> is the position, and the line is the one that this newline ends.
\<close>

theorem containing_line_boundaries:
  assumes "0 \<le> pos" and "pos < len content"
  shows "((line_start content pos = 0 \<and> (\<forall>i<nat pos. content ! i \<noteq> 10))
          \<or> (0 < line_start content pos \<and> line_start content pos \<le> pos
              \<and> content ! nat (line_start content pos - 1) = 10
              \<and> (\<forall>i. nat (line_start content pos) \<le> i \<and> i < nat pos \<longrightarrow> content ! i \<noteq> 10)))
         \<and> ((line_end content pos = len content
              \<and> (\<forall>i. nat pos \<le> i \<and> i < length content \<longrightarrow> content ! i \<noteq> 10))
             \<or> (pos \<le> line_end content pos \<and> line_end content pos < len content
                 \<and> content ! nat (line_end content pos) = 10
                 \<and> (\<forall>i. nat pos \<le> i \<and> i < nat (line_end content pos) \<longrightarrow> content ! i \<noteq> 10)))
         \<and> line_content content pos =
             take (nat (line_end content pos - line_start content pos))
                  (drop (nat (line_start content pos)) content)
         \<and> (content ! nat pos = 10 \<longrightarrow>
              line_end content pos = pos \<and> line_start content pos \<le> pos
              \<and> line_content content pos =
                  take (nat (pos - line_start content pos))
                       (drop (nat (line_start content pos)) content))"
proof -
  from assms have le: "pos \<le> len content" by simp
  have "content ! nat pos = 10 \<longrightarrow>
              line_end content pos = pos \<and> line_start content pos \<le> pos
              \<and> line_content content pos =
                  take (nat (pos - line_start content pos))
                       (drop (nat (line_start content pos)) content)"
    using line_end_at_newline [OF assms] line_start_bounds(2) [OF assms(1), of content]
      line_content_eq [OF assms(1), of content]
    by simp
  with line_start_boundary [OF assms(1) le] line_end_boundary [OF assms(1), of content]
    line_content_eq [OF assms(1), of content]
  show ?thesis by blast
qed

theorem containing_line_boundaries_witness:
  "(0::int) \<le> 5 \<and> 5 < len scenario \<and> 5 < len three_lines
   \<and> line_start scenario 5 = 4 \<and> scenario ! 3 = 10 \<and> scenario ! 4 \<noteq> 10
   \<and> line_end scenario 5 = 7 \<and> scenario ! 7 = 10 \<and> scenario ! 5 \<noteq> 10 \<and> scenario ! 6 \<noteq> 10
   \<and> line_content scenario 5 = take 3 (drop 4 scenario)
   \<and> three_lines ! 5 = 10 \<and> line_end three_lines 5 = 5 \<and> line_start three_lines 5 \<le> 5
   \<and> line_content three_lines 5 = take 2 (drop 3 three_lines)"
proof -
  have v: "(0::int) \<le> 5" "5 < len scenario" "5 < len three_lines"
    by (simp_all add: len_def scenario_def three_lines_def)
  have nl: "three_lines ! nat 5 = 10" by (simp add: three_lines_def)
  have l: "len scenario = 8" "length scenario = 8" by (simp_all add: len_def scenario_def)
  from containing_line_boundaries [OF v(1,2)] scenario_line l
  have "scenario ! nat (4 - 1) = 10"
    "\<forall>i. nat 4 \<le> i \<and> i < nat 5 \<longrightarrow> scenario ! i \<noteq> 10"
    "scenario ! nat 7 = 10 \<or> 7 = len scenario"
    "\<forall>i. nat 5 \<le> i \<and> i < nat 7 \<longrightarrow> scenario ! i \<noteq> 10"
    "line_content scenario 5 = take (nat (7 - 4)) (drop (nat 4) scenario)"
    by auto
  then have "scenario ! 3 = 10" "scenario ! 4 \<noteq> 10" "scenario ! 7 = 10" "scenario ! 5 \<noteq> 10"
    "scenario ! 6 \<noteq> 10" "line_content scenario 5 = take 3 (drop 4 scenario)"
    by (simp_all add: len_def scenario_def)
  moreover from containing_line_boundaries [OF v(1,3)] nl three_lines_line
  have "line_end three_lines 5 = 5" "line_start three_lines 5 \<le> 5"
    "line_content three_lines 5 = take (nat (5 - 3)) (drop (nat 3) three_lines)"
    by auto
  ultimately show ?thesis using v nl scenario_line(1,2) by simp
qed

text \<open>
  The claim as the specification states it takes a newline at the position as the backward
  boundary.  In \<^verbatim>\<open>b"ab\ncd\nef"\<close> the byte at offset 5 is a newline;
  \<^verbatim>\<open>content.rfind(b'\n', 0, 5)\<close> searches the offsets 0 to 4 and finds the newline at
  offset 2, so the line starts at 3 and not at 6, and it is \<open>cd\<close>.
\<close>

theorem backward_boundary_counterexample:
  "(5::int) < len three_lines \<and> getitem three_lines 5 = Inr 10
   \<and> line_start three_lines 5 = 3 \<and> line_start three_lines 5 \<noteq> 5 + 1
   \<and> getitem three_lines (line_start three_lines 5 - 1) = Inr 10
   \<and> line_start three_lines 5 - 1 \<noteq> 5
   \<and> line_end three_lines 5 = 5
   \<and> line_content three_lines 5 = [0x63, 0x64]"
  by (simp add: three_lines_line) (simp add: getitem_def len_def three_lines_def)

section \<open>The claims about the window\<close>

text \<open>
  Claim C3, as the code has it.  For every file content, inspected position and window
  sizes, the entries of the listing are, in increasing order, exactly the offsets from
  \<open>max(0, pos - back)\<close> to \<open>min(length, pos + ahead) - 1\<close>, and the loop raises nothing.
  With the literals of find\_error\_char.py (10 and 11) that is the radius 10 on both
  sides of the position, cut at the ends of the file; with those of
  check\_bytes\_correctly.py (5 and 15) it is 5 offsets before the position and 14 after
  it, so the window is not symmetric there.
\<close>

theorem window_offsets:
  "map entry_offset (fst (bytes_around pos back ahead content)) =
     [max 0 (pos - back)..min (len content) (pos + ahead) - 1]
   \<and> map entry_offset (fst (characters_around pos back ahead content)) =
     [max 0 (pos - back)..min (len content) (pos + ahead) - 1]
   \<and> snd (bytes_around pos back ahead content) = None
   \<and> snd (characters_around pos back ahead content) = None
   \<and> map entry_offset (fst (bytes_around 1175 5 15 content)) =
     [max 0 1170..min (len content) 1190 - 1]
   \<and> map entry_offset (fst (characters_around 1175 10 11 content)) =
     [max 0 1165..min (len content - 1) 1185]"
proof -
  have "min (len content) (1175 + 11) - 1 = min (len content - 1) 1185" by simp
  then have "map entry_offset (fst (characters_around 1175 10 11 content)) =
               [max 0 1165..min (len content - 1) 1185]"
    by (simp add: characters_around_offsets py_range_def window_start_def window_end_def)
  moreover have "snd (bytes_around pos back ahead content) = None"
    "snd (characters_around pos back ahead content) = None"
    by (simp_all add: bytes_around_eq characters_around_eq)
  ultimately show ?thesis
    by (simp add: bytes_around_offsets characters_around_offsets py_range_def
        window_start_def window_end_def)
qed

text \<open>
  The claim as the specification states it asks for one radius \<open>w\<close> on both sides.  On a
  file of 2000 bytes check\_bytes\_correctly.py lists the offsets 1170 to 1189, which is
  the range of neither radius its literals name.
\<close>

theorem symmetric_window_counterexample:
  "map entry_offset (fst (bytes_around 1175 5 15 (replicate 2000 32))) = [1170..1189]
   \<and> map entry_offset (fst (bytes_around 1175 5 15 (replicate 2000 32)))
       \<noteq> [max 0 (1175 - 5)..min (len (replicate 2000 (32::byte))) (1175 + 5)]
   \<and> map entry_offset (fst (bytes_around 1175 5 15 (replicate 2000 32)))
       \<noteq> [max 0 (1175 - 15)..min (len (replicate 2000 (32::byte))) (1175 + 15)]"
proof -
  have eq: "map entry_offset (fst (bytes_around 1175 5 15 (replicate 2000 32))) = [1170..1189]"
    by (simp add: bytes_around_offsets py_range_def window_start_def window_end_def len_def)
  have "length [1170..1189::int] \<noteq> length [1170..1180::int]"
       "length [1170..1189::int] \<noteq> length [1160..1190::int]"
    by simp_all
  then have "[1170..1189::int] \<noteq> [1170..1180]" "[1170..1189::int] \<noteq> [1160..1190]"
    by fastforce+
  with eq show ?thesis by (simp add: len_def)
qed

text \<open>
  Claim C6, as the code has it.  For every file content and every valid inspected
  position (\<open>0 \<le> pos < length\<close>), with a window that reaches at least 0 bytes back and at
  least 1 byte ahead (as the literals of both scripts do), the entries of the listing are
  not empty and exactly one of them is flagged: the entry at the position itself.
\<close>

theorem flagged_entry_unique:
  assumes "0 \<le> pos" and "pos < len content" and "0 \<le> back" and "0 < ahead"
  shows "fst (bytes_around pos back ahead content) \<noteq> []
         \<and> filter entry_flagged (fst (bytes_around pos back ahead content)) =
             [entry_of render pos pos (uint (content ! nat pos))]
         \<and> fst (characters_around pos back ahead content) \<noteq> []
         \<and> filter entry_flagged (fst (characters_around pos back ahead content)) =
             [entry_of chr pos pos (uint (content ! nat pos))]"
proof -
  from assms have in_window: "window_start pos back \<le> pos \<and> pos < window_end content pos ahead"
    by (simp add: window_start_def window_end_def)
  then have "py_range (window_start pos back) (window_end content pos ahead) \<noteq> []"
    by (auto simp: py_range_def)
  with in_window show ?thesis
    by (simp add: bytes_around_eq characters_around_eq flagged_entries)
qed

theorem flagged_entry_unique_witness:
  "(0::int) \<le> 5 \<and> 5 < len scenario \<and> (0::int) \<le> 2 \<and> (0::int) < 3
   \<and> fst (bytes_around 5 2 3 scenario) \<noteq> []
   \<and> filter entry_flagged (fst (bytes_around 5 2 3 scenario)) =
        [\<lparr>entry_offset = 5, entry_byte = 101, entry_char = [101], entry_flagged = True\<rparr>]
   \<and> filter entry_flagged (fst (characters_around 5 2 3 scenario)) =
        [\<lparr>entry_offset = 5, entry_byte = 101, entry_char = [101], entry_flagged = True\<rparr>]"
  using flagged_entry_unique [of 5 scenario 2 3]
  by (simp add: len_def scenario_def entry_of_def render_def chr_def)

text \<open>
  A file that is not empty but ends before the window gives an empty listing, and one that
  ends inside the window before the position gives a listing with no flagged entry.
\<close>

theorem flagged_entry_counterexample:
  "0 < len [0x61 :: byte] \<and> fst (bytes_around 1175 5 15 [0x61]) = []
   \<and> filter entry_flagged (fst (bytes_around 1175 5 15 (replicate 1173 0x61))) = []
   \<and> fst (bytes_around 1175 5 15 (replicate 1173 0x61)) \<noteq> []"
  by (simp add: bytes_around_eq flagged_entries window_start_def window_end_def len_def)
    (simp add: py_range_def)

section \<open>The claims about a position outside the file\<close>

text \<open>
  Claim C9.  In check\_bytes\_correctly.py every byte access is in bounds for every file
  content, also for files shorter than the position 1175: the bounds of the window lie in
  \<open>[0, length]\<close>, so every index of the loop reads a byte of the file, the run ends
  without an exception, and when the length is at most 1170 the listing is empty and the
  output is the two headers, the header of the line, the line and the offset within it.
\<close>

theorem check_bytes_correctly_never_raises:
  "raised (check_bytes_correctly content) = None
   \<and> 0 \<le> window_start 1175 5 \<and> window_end content 1175 15 \<le> len content
   \<and> (\<forall>i \<in> set (py_range (window_start 1175 5) (window_end content 1175 15)).
         0 \<le> i \<and> i < len content \<and> getitem content i = Inr (uint (content ! nat i)))
   \<and> (len content \<le> 1170 \<longrightarrow>
         fst (bytes_around 1175 5 15 content) = []
         \<and> (\<exists>text. decode Replace (line_content content 1175) = Inr text
              \<and> stdout (check_bytes_correctly content) =
                   [lit ''File length: '' @ format_d (len content),
                    lit ''Bytes around position 1175:'',
                    10 # lit ''Line containing position 1175:'',
                    [39] @ text @ [39],
                    lit ''Offset within line: '' @ format_d (offset_in_line content 1175)]))"
proof (intro conjI ballI impI)
  show "raised (check_bytes_correctly content) = None"
    by (simp add: check_bytes_correctly_def check_bytes_correctly_at_raised)
  show "0 \<le> window_start 1175 5" by (simp add: window_start_def)
  show "window_end content 1175 15 \<le> len content" by (simp add: window_end_def)
next
  fix i assume i: "i \<in> set (py_range (window_start 1175 5) (window_end content 1175 15))"
  from window_in_range [OF i] show "0 \<le> i" "i < len content" by simp_all
  from window_in_range [OF i] show "getitem content i = Inr (uint (content ! nat i))"
    by (simp add: getitem_in_range)
next
  assume short: "len content \<le> 1170"
  then show empty: "fst (bytes_around 1175 5 15 content) = []"
    by (simp add: bytes_around_eq py_range_def window_start_def window_end_def)
  from decode_replace obtain s where
    s: "decode Replace (line_content content 1175) = Inr s" by blast
  with empty show "\<exists>text. decode Replace (line_content content 1175) = Inr text
      \<and> stdout (check_bytes_correctly content) =
           [lit ''File length: '' @ format_d (len content),
            lit ''Bytes around position 1175:'',
            10 # lit ''Line containing position 1175:'',
            [39] @ text @ [39],
            lit ''Offset within line: '' @ format_d (offset_in_line content 1175)]"
    by (simp add: check_bytes_correctly_def check_bytes_correctly_at_eq [OF s])
qed

theorem check_bytes_correctly_never_raises_witness:
  "len scenario \<le> 1170
   \<and> raised (check_bytes_correctly scenario) = None
   \<and> fst (bytes_around 1175 5 15 scenario) = []
   \<and> 1172 \<in> set (py_range (window_start 1175 5) (window_end (replicate 1180 32) 1175 15))
   \<and> getitem (replicate 1180 32) 1172 = Inr 32
   \<and> raised (check_bytes_correctly (replicate 1180 32)) = None"
proof -
  have short: "len scenario \<le> 1170" by (simp add: len_def scenario_def)
  have inside: "1172 \<in> set (py_range (window_start 1175 5) (window_end (replicate 1180 32) 1175 15))"
    by (simp add: set_py_range window_start_def window_end_def len_def)
  from check_bytes_correctly_never_raises [of scenario] short
  have "raised (check_bytes_correctly scenario) = None"
    "fst (bytes_around 1175 5 15 scenario) = []"
    by blast+
  moreover from check_bytes_correctly_never_raises [of "replicate 1180 32"] inside
  have "getitem (replicate 1180 32) 1172 = Inr (uint (replicate 1180 (32::byte) ! nat 1172))"
    "raised (check_bytes_correctly (replicate 1180 32)) = None"
    by blast+
  ultimately show ?thesis using short inside by simp
qed

text \<open>
  Claim C1, as the code has it.  For every file content of length \<open>L\<close> and every position
  \<open>pos \<ge> L\<close>: find\_error\_char.py prints the line with the file length and then stops at
  the IndexError of \<^verbatim>\<open>content[pos]\<close>, which nothing catches; check\_bytes\_correctly.py
  raises nothing and runs to its end, printing a listing that has no entry flagged as the
  position (and no entry at all when \<open>L \<le> pos - back\<close>), the line and the offset.
\<close>

theorem offset_beyond_length:
  assumes "len content \<le> pos"
  shows "find_error_char_at pos cback cahead back ahead content =
           \<lparr>stdout = [lit ''File length: '' @ format_d (len content)],
            raised = Some IndexError\<rparr>
         \<and> raised (check_bytes_correctly_at pos back ahead content) = None
         \<and> (\<exists>text. check_bytes_correctly_at pos back ahead content =
              \<lparr>stdout = [lit ''File length: '' @ format_d (len content),
                         lit ''Bytes around position 1175:'']
                        @ map position_line (fst (bytes_around pos back ahead content))
                        @ [10 # lit ''Line containing position 1175:'',
                           [39] @ text @ [39],
                           lit ''Offset within line: '' @ format_d (offset_in_line content pos)],
               raised = None\<rparr>)
         \<and> filter entry_flagged (fst (bytes_around pos back ahead content)) = []
         \<and> (len content \<le> pos - back \<longrightarrow> fst (bytes_around pos back ahead content) = [])"
proof -
  from decode_replace obtain s where
    s: "decode Replace (line_content content pos) = Inr s" by blast
  have "filter entry_flagged (fst (bytes_around pos back ahead content)) = []"
    using assms by (simp add: bytes_around_eq flagged_entries window_end_def)
  moreover have "len content \<le> pos - back \<longrightarrow> fst (bytes_around pos back ahead content) = []"
    by (simp add: bytes_around_eq py_range_def window_start_def window_end_def)
  ultimately show ?thesis
    using find_error_char_at_short [OF assms] check_bytes_correctly_at_eq [OF s]
      check_bytes_correctly_at_raised
    by auto
qed

theorem offset_beyond_length_witness:
  "len hi_file \<le> 5
   \<and> find_error_char_at 5 50 50 10 11 hi_file =
        \<lparr>stdout = [lit ''File length: 2''], raised = Some IndexError\<rparr>
   \<and> raised (check_bytes_correctly_at 5 10 11 hi_file) = None
   \<and> filter entry_flagged (fst (bytes_around 5 10 11 hi_file)) = []"
  using offset_beyond_length [of hi_file 5 50 50 10 11]
  by (simp add: file_length_hi) (simp add: len_def hi_file_def)

text \<open>
  The claim as the specification states it asks for an out-of-range error and no output.
  On the two-byte file \<^verbatim>\<open>b"hi"\<close> check\_bytes\_correctly.py ends normally, and
  find\_error\_char.py has printed the file length when the IndexError ends it.
\<close>

theorem offset_out_of_range_counterexample:
  "len hi_file \<le> 1175
   \<and> raised (check_bytes_correctly hi_file) = None
   \<and> find_error_char hi_file = \<lparr>stdout = [lit ''File length: 2''], raised = Some IndexError\<rparr>"
  using find_error_char_at_short [of hi_file 1175 50 50 10 11]
  by (simp add: check_bytes_correctly_def check_bytes_correctly_at_raised find_error_char_def
      file_length_hi) (simp add: len_def hi_file_def)

section \<open>The claims about the byte at the position\<close>

text \<open>
  Claim C5.  For every file content and every position with \<open>0 \<le> pos < length\<close>, the
  byte reported for the position is the byte stored there: \<^verbatim>\<open>content[pos]\<close> reads it,
  find\_error\_char.py prints its character and its value in its second and third line,
  and the one flagged entry of the listing of check\_bytes\_correctly.py holds it.  On the
  content \<^verbatim>\<open>b"abc\ndef\n"\<close> with position 5 and a window of 2, the byte is \<open>e\<close> (0x65,
  101), the line holding the position is \<open>def\<close>, and the offset within the line is 1.
\<close>

theorem target_byte_is_stored_byte:
  assumes "0 \<le> pos" and "pos < len content"
  shows "getitem content pos = Inr (uint (content ! nat pos))
         \<and> take 3 (stdout (find_error_char_at pos cback cahead back ahead content)) =
             [lit ''File length: '' @ format_d (len content),
              lit ''Character at position 1175: '' @ chr (uint (content ! nat pos)),
              lit ''Byte value: '' @ format_d (uint (content ! nat pos))]
         \<and> (0 \<le> back \<and> 0 < ahead \<longrightarrow>
              map entry_byte (filter entry_flagged (fst (bytes_around pos back ahead content))) =
                [uint (content ! nat pos)])
         \<and> getitem scenario 5 = Inr 101
         \<and> chr 101 = lit ''e''
         \<and> line_content scenario 5 = [0x64, 0x65, 0x66]
         \<and> decode Replace (line_content scenario 5) = Inr (lit ''def'')
         \<and> offset_in_line scenario 5 = 1
         \<and> stdout (check_bytes_correctly_at 5 2 2 scenario) ! 4 =
             lit ''Position    5: 0x65 (101) '' @ [39, 101, 39] @ lit '' <<<<''"
proof -
  from decode_replace obtain s where
    s: "decode Replace (context_bytes pos cback cahead content) = Inr s" by blast
  have "take 3 (stdout (find_error_char_at pos cback cahead back ahead content)) =
             [lit ''File length: '' @ format_d (len content),
              lit ''Character at position 1175: '' @ chr (uint (content ! nat pos)),
              lit ''Byte value: '' @ format_d (uint (content ! nat pos))]"
    by (simp add: find_error_char_at_eq [OF assms s])
  moreover have "0 \<le> back \<and> 0 < ahead \<longrightarrow>
      map entry_byte (filter entry_flagged (fst (bytes_around pos back ahead content))) =
        [uint (content ! nat pos)]"
    using assms by (simp add: bytes_around_eq flagged_entries window_start_def window_end_def)
  moreover have "stdout (check_bytes_correctly_at 5 2 2 scenario) ! 4 =
             lit ''Position    5: 0x65 (101) '' @ [39, 101, 39] @ lit '' <<<<''"
    by (simp add: scenario_report)
  ultimately show ?thesis
    using getitem_in_range [OF assms] scenario_line(3,4) scenario_target(1,2,6) by simp
qed

theorem target_byte_is_stored_byte_witness:
  "(0::int) \<le> 5 \<and> 5 < len scenario \<and> (0::int) \<le> 2 \<and> (0::int) < 3
   \<and> getitem scenario 5 = Inr 101
   \<and> take 3 (stdout (find_error_char_at 5 2 2 2 3 scenario)) =
        [lit ''File length: 8'', lit ''Character at position 1175: e'', lit ''Byte value: 101'']
   \<and> map entry_byte (filter entry_flagged (fst (bytes_around 5 2 3 scenario))) = [101]"
proof -
  have v: "(0::int) \<le> 5" "5 < len scenario" by (simp_all add: len_def scenario_def)
  from target_byte_is_stored_byte [OF v, of 2 2 2 3] show ?thesis
    using v by (simp add: scenario_target(3,4,5) scenario_lines(5))
qed

section \<open>The claim about decoding\<close>



section \<open>The claim about the rendering of a byte\<close>

text \<open>
  Claim C2.  The listing of check\_bytes\_correctly.py shows every byte value as the
  claim says: the character itself when \<open>32 \<le> b \<le> 126\<close>, and the escape \<^verbatim>\<open>\x\<close> followed
  by two hexadecimal digits otherwise.  The listing of find\_error\_char.py shows
  \<^verbatim>\<open>chr(content[i])\<close> for every byte value, so a byte outside that range is printed raw.
  On the file of 1175 spaces followed by a newline, find\_error\_char.py prints the
  newline itself between the quotes of the line for offset 1175, and in its second line;
  check\_bytes\_correctly.py prints \<^verbatim>\<open>\x0a\<close> there.
\<close>

theorem characters_listed_raw:
  "map entry_char (fst (characters_around pos back ahead content)) =
     map (\<lambda>i. [unat (content ! nat i)])
         (py_range (window_start pos back) (window_end content pos ahead))
   \<and> map entry_char (fst (bytes_around pos back ahead content)) =
       map (\<lambda>i. render (uint (content ! nat i)))
           (py_range (window_start pos back) (window_end content pos ahead))
   \<and> render (uint (b :: byte)) =
       (if 32 \<le> uint b \<and> uint b \<le> 126 then [unat b]
        else [92, 120, hex_digit (unat b div 16), hex_digit (unat b mod 16)])
   \<and> getitem newline_at_1175 1175 = Inr 10
   \<and> raised (find_error_char newline_at_1175) = None
   \<and> stdout (find_error_char newline_at_1175) ! 1 = lit ''Character at position 1175: '' @ [10]
   \<and> last (stdout (find_error_char newline_at_1175)) =
       lit ''Position 1175: '' @ [39, 10, 39] @ lit '' <<<< ERROR HERE''
   \<and> stdout (check_bytes_correctly newline_at_1175) ! 7 =
       lit ''Position 1175: 0x0a ( 10) '' @ [39, 92, 120, 48, 97, 39] @ lit '' <<<<''"
proof -
  have "map entry_char (fst (characters_around pos back ahead content)) =
     map (\<lambda>i. [unat (content ! nat i)])
         (py_range (window_start pos back) (window_end content pos ahead))"
    by (simp add: characters_around_eq comp_def chr_def)
  moreover have "map entry_char (fst (bytes_around pos back ahead content)) =
       map (\<lambda>i. render (uint (content ! nat i)))
           (py_range (window_start pos back) (window_end content pos ahead))"
    by (simp add: bytes_around_eq comp_def)
  moreover have "getitem newline_at_1175 1175 = Inr 10"
    by (simp add: getitem_def newline_at_1175_bytes)
  moreover from newline_at_1175_find_error_char
  have "raised (find_error_char newline_at_1175) = None"
    "stdout (find_error_char newline_at_1175) ! 1 = lit ''Character at position 1175: '' @ [10]"
    "last (stdout (find_error_char newline_at_1175)) =
       lit ''Position 1175: '' @ [39, 10, 39] @ lit '' <<<< ERROR HERE''"
    by (auto simp: newline_at_1175_characters newline_lines)
  moreover have "stdout (check_bytes_correctly newline_at_1175) ! 7 =
       lit ''Position 1175: 0x0a ( 10) '' @ [39, 92, 120, 48, 97, 39] @ lit '' <<<<''"
  proof -
    from decode_replace obtain s where
      s: "decode Replace (line_content newline_at_1175 1175) = Inr s" by blast
    show ?thesis
      by (simp add: check_bytes_correctly_def check_bytes_correctly_at_eq [OF s]
          newline_at_1175_entries newline_lines nth_append)
  qed
  ultimately show ?thesis using render_byte [of b] by simp
qed

text \<open>
  The entry of the newline at offset 1175 in the two listings: the raw character in
  find\_error\_char.py, the escape in check\_bytes\_correctly.py.
\<close>

theorem raw_newline_counterexample:
  "getitem newline_at_1175 1175 = Inr 10
   \<and> \<not> (32 \<le> (10::int) \<and> (10::int) \<le> 126)
   \<and> entry_char (last (fst (characters_around 1175 10 11 newline_at_1175))) = [10]
   \<and> entry_char (last (fst (characters_around 1175 10 11 newline_at_1175)))
        \<noteq> [92, 120, 48, 97]
   \<and> entry_char (last (fst (bytes_around 1175 5 15 newline_at_1175))) = [92, 120, 48, 97]"
  by (simp add: newline_at_1175_characters newline_at_1175_entries getitem_def
      newline_at_1175_bytes chr_def render_def format_0x_byte hex_digit_def)

end
